theory Spec2Isabelle
  imports Main "HOL-Library.Sublist"
begin

section \<open>Strings of the script\<close>

text \<open>
  JavaScript strings are modelled as \<^typ>\<open>string\<close>, one \<^typ>\<open>char\<close> per code unit.
  \<open>str_includes s u\<close> is \<^verbatim>\<open>s.includes(u)\<close>: a scan of \<open>s\<close> from the left for a position
  where \<open>u\<close> starts. The empty string is found everywhere, also in the empty string.
\<close>

fun str_includes :: "string \<Rightarrow> string \<Rightarrow> bool" where
  "str_includes [] u = (u = [])"
| "str_includes (c # cs) u = (prefix u (c # cs) \<or> str_includes cs u)"

text \<open>\<^verbatim>\<open>s.split(sep)\<close> for a separator of one code unit.\<close>

fun split_on :: "char \<Rightarrow> string \<Rightarrow> string list" where
  "split_on sep [] = [[]]"
| "split_on sep (c # cs) =
     (if c = sep then [] # split_on sep cs
      else (case split_on sep cs of
              [] \<Rightarrow> [[c]]
            | w # ws \<Rightarrow> (c # w) # ws))"

definition newline :: char where
  "newline = CHR 0x0A"

section \<open>The download directory\<close>

text \<open>
  Every file the script touches lies directly in the download directory, so a path
  \<^verbatim>\<open>path.join(downloadDir, name)\<close> is modelled by \<open>name\<close>. The directory maps a
  name to the text of the file. The three flags are the environment's answer to a
  read, to a change of the text of a file, and to a rename; a refused call rejects with
  an error, as the \<^verbatim>\<open>fs/promises\<close> functions do. A rename of a file that is not
  there is \<open>ENOENT\<close> whatever the flags.
\<close>

datatype err =
  ENOENT | EACCES | ExtractionError | RangeError | TypeError | TimeoutError

record fs =
  files :: "string \<rightharpoonup> string"
  readable :: bool
  writable :: bool
  renamable :: bool

definition fs_access :: "fs \<Rightarrow> string \<Rightarrow> err + unit" where
  "fs_access d p = (case files d p of None \<Rightarrow> Inl ENOENT | Some _ \<Rightarrow> Inr ())"

definition fs_readFile :: "fs \<Rightarrow> string \<Rightarrow> err + string" where
  "fs_readFile d p =
     (if \<not> readable d then Inl EACCES
      else (case files d p of None \<Rightarrow> Inl ENOENT | Some c \<Rightarrow> Inr c))"

definition fs_writeFile :: "fs \<Rightarrow> string \<Rightarrow> string \<Rightarrow> err + fs" where
  "fs_writeFile d p txt =
     (if \<not> writable d then Inl EACCES
      else Inr (d\<lparr>files := (files d)(p \<mapsto> txt)\<rparr>))"

definition fs_appendFile :: "fs \<Rightarrow> string \<Rightarrow> string \<Rightarrow> err + fs" where
  "fs_appendFile d p txt =
     (if \<not> writable d then Inl EACCES
      else Inr (d\<lparr>files := (files d)(p \<mapsto>
                  (case files d p of None \<Rightarrow> txt | Some c \<Rightarrow> c @ txt))\<rparr>))"

definition fs_rename :: "fs \<Rightarrow> string \<Rightarrow> string \<Rightarrow> err + fs" where
  "fs_rename d old new =
     (case files d old of
        None \<Rightarrow> Inl ENOENT
      | Some c \<Rightarrow>
          if \<not> renamable d then Inl EACCES
          else Inr (d\<lparr>files := ((files d)(old := None))(new \<mapsto> c)\<rparr>))"

section \<open>The ledger\<close>

definition CSV_FILENAME :: string where
  "CSV_FILENAME = ''_videos.csv''"

definition headers :: string where
  "headers = ''URL,UUID,Title,Date,Duration,Filename'' @ [newline]"

record videoData =
  url :: string
  uuid :: string
  title :: string
  date :: string
  duration :: string
  isPrivate :: bool

text \<open>The object \<^verbatim>\<open>{ ...videoData, filename }\<close> handed to \<open>addVideoDataToCSV\<close>.\<close>

record ledgerEntry = videoData +
  filename :: string

definition with_filename :: "videoData \<Rightarrow> string \<Rightarrow> ledgerEntry" where
  "with_filename v f =
     \<lparr>url = url v, uuid = uuid v, title = title v, date = date v,
      duration = duration v, isPrivate = isPrivate v, filename = f\<rparr>"

definition initCSV :: "fs \<Rightarrow> err + fs" where
  "initCSV d =
     (case fs_access d CSV_FILENAME of
        Inr _ \<Rightarrow> Inr d
      | Inl _ \<Rightarrow> fs_writeFile d CSV_FILENAME headers)"

definition csvLine :: "ledgerEntry \<Rightarrow> string" where
  "csvLine e =
     url e @ '','' @ uuid e @ '','' @ title e @ '','' @ date e @ '','' @
     duration e @ '','' @ filename e @ [newline]"

definition addVideoDataToCSV :: "fs \<Rightarrow> ledgerEntry \<Rightarrow> err + fs" where
  "addVideoDataToCSV d e = fs_appendFile d CSV_FILENAME (csvLine e)"

definition isVideoDataInCSV :: "fs \<Rightarrow> string \<Rightarrow> bool" where
  "isVideoDataInCSV d u =
     (case fs_readFile d CSV_FILENAME of
        Inr csvData \<Rightarrow> str_includes csvData u
      | Inl _ \<Rightarrow> False)"

text \<open>
  The membership test as the specification words it: some row after the header has
  \<open>u\<close> as its identifier, the second of its comma-separated fields. This definition
  follows the specification, not the code, and is compared with \<open>isVideoDataInCSV\<close>.
\<close>

definition row_uuid :: "string \<Rightarrow> string option" where
  "row_uuid line =
     (case split_on CHR '','' line of
        _ # u # _ \<Rightarrow> Some u
      | _ \<Rightarrow> None)"

definition ledger_rows :: "string \<Rightarrow> string list" where
  "ledger_rows csvData = tl (split_on newline csvData)"

definition spec_contains :: "string \<Rightarrow> string \<Rightarrow> bool" where
  "spec_contains csvData u = list_ex (\<lambda>line. row_uuid line = Some u) (ledger_rows csvData)"

section \<open>Dates\<close>

text \<open>
  The day number of a civil date and back, counted from 1 January 1970, with the
  proleptic Gregorian calendar of ECMAScript's \<open>MakeDay\<close>, \<open>YearFromTime\<close>,
  \<open>MonthFromTime\<close> and \<open>DateFromTime\<close>. Months are numbered from 1.
\<close>

definition days_from_civil :: "int \<Rightarrow> int \<Rightarrow> int \<Rightarrow> int" where
  "days_from_civil y m d =
     (let y' = (if m \<le> 2 then y - 1 else y);
          era = y' div 400;
          yoe = y' - era * 400;
          mp = (m + 9) mod 12;
          doy = (153 * mp + 2) div 5 + d - 1;
          doe = yoe * 365 + yoe div 4 - yoe div 100 + doy
      in era * 146097 + doe - 719468)"

definition civil_from_days :: "int \<Rightarrow> int \<times> int \<times> int" where
  "civil_from_days z =
     (let z' = z + 719468;
          era = z' div 146097;
          doe = z' - era * 146097;
          yoe = (doe - doe div 1460 + doe div 36524 - doe div 146096) div 365;
          doy = doe - (365 * yoe + yoe div 4 - yoe div 100);
          mp = (5 * doy + 2) div 153;
          d = doy - (153 * mp + 2) div 5 + 1;
          m = (if mp < 10 then mp + 3 else mp - 9);
          y = yoe + era * 400
      in ((if m \<le> 2 then y + 1 else y), m, d))"

definition msPerDay :: int where
  "msPerDay = 86400000"

primrec pad :: "nat \<Rightarrow> int \<Rightarrow> string" where
  "pad 0 x = []"
| "pad (Suc n) x = pad n (x div 10) @ [''0123456789'' ! nat (x mod 10)]"

definition year_str :: "int \<Rightarrow> string" where
  "year_str y =
     (if 0 \<le> y \<and> y \<le> 9999 then pad 4 y
      else (if y < 0 then ''-'' else ''+'') @ pad 6 \<bar>y\<bar>)"

text \<open>\<^verbatim>\<open>Date.prototype.toISOString\<close> of a valid time value (milliseconds, UTC).\<close>

definition toISOString :: "int \<Rightarrow> string" where
  "toISOString t =
     (let (y, m, d) = civil_from_days (t div msPerDay);
          ms = t mod msPerDay
      in year_str y @ ''-'' @ pad 2 m @ ''-'' @ pad 2 d @ ''T'' @
         pad 2 (ms div 3600000) @ '':'' @ pad 2 (ms div 60000 mod 60) @ '':'' @
         pad 2 (ms div 1000 mod 60) @ ''.'' @ pad 3 (ms mod 1000) @ ''Z'')"

text \<open>
  What the script needs of the runtime and of its libraries: \<open>date_parse\<close> is the time
  value \<^verbatim>\<open>new Date(text)\<close> holds (\<open>None\<close> for an invalid date), which ECMAScript
  leaves to the implementation for a text that is not in the ISO format, and
  \<open>sanitize\<close> is the \<^verbatim>\<open>sanitize-filename\<close> package.
\<close>

record env =
  date_parse :: "string \<Rightarrow> int option"
  sanitize :: "string \<Rightarrow> string"

text \<open>
  Line 183: \<^verbatim>\<open>new Date(rawDate).toISOString().split('T')[0]\<close>. The constructor clips
  a time value beyond 8.64e15 ms to an invalid date, and \<open>toISOString\<close> of an invalid
  date throws a \<open>RangeError\<close>.
\<close>

definition normalize_date :: "env \<Rightarrow> string \<Rightarrow> err + string" where
  "normalize_date e rawDate =
     (case date_parse e rawDate of
        None \<Rightarrow> Inl RangeError
      | Some t \<Rightarrow>
          if \<bar>t\<bar> > 8640000000000000 then Inl RangeError
          else (case split_on CHR ''T'' (toISOString t) of
                  [] \<Rightarrow> Inl TypeError
                | x # _ \<Rightarrow> Inr x))"

text \<open>
  The parser of Node's engine (V8) on a text of the shape \<open>Jan 5, 2023\<close>: an English
  month abbreviation, a day of one or two digits, a comma, a year of four digits. V8
  reads such a text as midnight of that day in the local time zone; \<open>tz\<close> is the
  offset of local time from UTC in minutes (60 for UTC+01:00). A day outside 1..31
  is an invalid date; a larger day than the month has runs into the next month; a year
  from 0 to 49 is taken as 2000 to 2049 and a year from 50 to 99 as 1950 to 1999.
  A text of any other shape is outside this model of the parser, which maps it to
  \<open>None\<close>; it is used only on texts of this shape.
\<close>

definition month_names :: "string list" where
  "month_names =
     [''Jan'', ''Feb'', ''Mar'', ''Apr'', ''May'', ''Jun'',
      ''Jul'', ''Aug'', ''Sep'', ''Oct'', ''Nov'', ''Dec'']"

fun index_of :: "'a \<Rightarrow> 'a list \<Rightarrow> nat option" where
  "index_of x [] = None"
| "index_of x (y # ys) = (if x = y then Some 0 else map_option Suc (index_of x ys))"

definition parse_digits :: "string \<Rightarrow> int option" where
  "parse_digits s =
     (if s = [] then None
      else fold (\<lambda>c acc. case (acc, index_of c ''0123456789'') of
                           (Some a, Some k) \<Rightarrow> Some (10 * a + int k)
                         | _ \<Rightarrow> None) s (Some 0))"

definition parse_mdy :: "string \<Rightarrow> (int \<times> int \<times> int) option" where
  "parse_mdy rawDate =
     (case split_on CHR '' '' rawDate of
        [mon, dayc, yr] \<Rightarrow>
          (case index_of mon month_names of
             None \<Rightarrow> None
           | Some i \<Rightarrow>
               if dayc = [] \<or> last dayc \<noteq> CHR '','' \<or> length dayc > 3 \<or> length yr \<noteq> 4
               then None
               else (case (parse_digits (butlast dayc), parse_digits yr) of
                       (Some d, Some y) \<Rightarrow> Some (y, int i + 1, d)
                     | _ \<Rightarrow> None))
      | _ \<Rightarrow> None)"

definition legacy_year :: "int \<Rightarrow> int" where
  "legacy_year y =
     (if 0 \<le> y \<and> y \<le> 49 then y + 2000
      else if 50 \<le> y \<and> y \<le> 99 then y + 1900
      else y)"

definition v8_date_parse :: "int \<Rightarrow> string \<Rightarrow> int option" where
  "v8_date_parse tz rawDate =
     (case parse_mdy rawDate of
        None \<Rightarrow> None
      | Some (y, m, d) \<Rightarrow>
          if 1 \<le> d \<and> d \<le> 31
          then Some ((days_from_civil (legacy_year y) m 1 + d - 1) * msPerDay - tz * 60000)
          else None)"

section \<open>The metadata extractor\<close>

text \<open>
  A grid item as the script sees it through the element handle: each field is the
  result of one query against the page (\<open>None\<close> when the query throws), the last four
  are whether the controls of the download menu turn up.
  \<open>card_name_date\<close> is the result of the in-page function
  \<^verbatim>\<open>el => el.textContent.split('\<bullet>')[1].trim()\<close>.
\<close>

record element =
  anchor :: "(string \<times> string) option"
  card_name_date :: "string option"
  duration_text :: "string option"
  privacy_lock :: bool
  tooltip_on_page :: bool
  tooltip_in_item :: bool
  menu_appears :: bool
  download_button :: bool

text \<open>
  \<^verbatim>\<open>url.match(/\/videos\/([^/]+)/)\<close>: the leftmost place where \<open>/videos/\<close> is followed
  by at least one character other than a slash, and the longest run of such characters.
\<close>

fun match_videos :: "string \<Rightarrow> string option" where
  "match_videos [] = None"
| "match_videos (c # cs) =
     (if prefix ''/videos/'' (c # cs)
         \<and> takeWhile (\<lambda>x. x \<noteq> CHR ''/'') (drop 8 (c # cs)) \<noteq> []
      then Some (takeWhile (\<lambda>x. x \<noteq> CHR ''/'') (drop 8 (c # cs)))
      else match_videos cs)"

definition extractVideoDataFromElementHandle :: "env \<Rightarrow> element \<Rightarrow> err + videoData" where
  "extractVideoDataFromElementHandle e el =
     (case anchor el of
        None \<Rightarrow> Inl ExtractionError
      | Some (href, ttl) \<Rightarrow>
     (case match_videos href of
        None \<Rightarrow> Inl TypeError
      | Some u \<Rightarrow>
     (case card_name_date el of
        None \<Rightarrow> Inl ExtractionError
      | Some rawDate \<Rightarrow>
     (case normalize_date e rawDate of
        Inl x \<Rightarrow> Inl x
      | Inr dt \<Rightarrow>
     (case duration_text el of
        None \<Rightarrow> Inl ExtractionError
      | Some dur \<Rightarrow>
          Inr \<lparr>url = href, uuid = u, title = ttl, date = dt, duration = dur,
               isPrivate = privacy_lock el\<rparr>)))))"

section \<open>Scraping one item\<close>

text \<open>
  The download notifications of the browser, and what the script does to its
  collaborators while one item is processed, in order: listeners registered and
  removed on the session, gestures on the page, calls that change the directory (with
  whether they succeeded), and the resolution of the promise. Console output is left out.
\<close>

datatype dl_state = InProgress | Completed | Canceled

datatype notification =
  DownloadWillBegin string
| DownloadProgress string dl_state

datatype action =
  RegisterStart | RegisterProgress | RemoveStart | RemoveProgress
| HoverItem | WaitTooltip | HoverTooltip | WaitMenu | Click
| Rename string string bool
| Append ledgerEntry bool
| Resolve

text \<open>
  The promise \<open>scrapeVideo\<close> returns is pending, or resolved, or never settles
  because the asynchronous function inside it threw: nothing catches that rejection,
  so \<open>resolve\<close> is not reached and Node ends the process on the unhandled rejection.
\<close>

datatype outcome = Pending | Resolved | Unhandled err

fun is_unhandled :: "outcome \<Rightarrow> bool" where
  "is_unhandled (Unhandled _) = True"
| "is_unhandled _ = False"

record flight =
  downloadFilename :: string
  startListener :: bool
  progressListener :: bool
  disk :: fs
  trace :: "action list"
  outcome :: outcome

definition emit :: "action list \<Rightarrow> flight \<Rightarrow> flight" where
  "emit acts st = st\<lparr>trace := trace st @ acts\<rparr>"

definition PRIVATE_FILENAME :: string where
  "PRIVATE_FILENAME = ''PRIVATE - video not downloadable''"

text \<open>The listener of \<open>Browser.downloadWillBegin\<close> (lines 232 to 238).\<close>

definition onDownloadWillBegin :: "string \<Rightarrow> flight \<Rightarrow> flight" where
  "onDownloadWillBegin guid st =
     (emit [RemoveStart] st)\<lparr>startListener := False, downloadFilename := guid\<rparr>"

text \<open>The listener of \<open>Browser.downloadProgress\<close> (lines 244 to 265).\<close>

definition onDownloadProgress ::
  "env \<Rightarrow> videoData \<Rightarrow> string \<Rightarrow> dl_state \<Rightarrow> flight \<Rightarrow> flight" where
  "onDownloadProgress e v guid state st =
     (if guid = downloadFilename st \<and> state = Completed then
        (let st1 = (emit [RemoveProgress] st)\<lparr>progressListener := False\<rparr>;
             fname = date v @ '' - '' @ sanitize e (title v) @ ''.mp4''
         in case fs_rename (disk st1) (downloadFilename st1) fname of
              Inl x \<Rightarrow>
                (emit [Rename (downloadFilename st1) fname False] st1)
                  \<lparr>outcome := Unhandled x\<rparr>
            | Inr d \<Rightarrow>
                (let st2 = (emit [Rename (downloadFilename st1) fname True] st1)
                             \<lparr>disk := d\<rparr>;
                     entry = with_filename v fname
                 in case addVideoDataToCSV d entry of
                      Inl x \<Rightarrow> (emit [Append entry False] st2)\<lparr>outcome := Unhandled x\<rparr>
                    | Inr d' \<Rightarrow>
                        (emit [Append entry True, Resolve] st2)
                          \<lparr>disk := d', outcome := Resolved\<rparr>))
      else st)"

text \<open>
  One notification reaches the listener registered for it, if there is one and the
  process is still alive.
\<close>

definition deliver :: "env \<Rightarrow> videoData \<Rightarrow> flight \<Rightarrow> notification \<Rightarrow> flight" where
  "deliver e v st n =
     (if is_unhandled (outcome st) then st
      else (case n of
              DownloadWillBegin guid \<Rightarrow>
                if startListener st then onDownloadWillBegin guid st else st
            | DownloadProgress guid state \<Rightarrow>
                if progressListener st then onDownloadProgress e v guid state st else st))"

text \<open>
  The gestures of lines 267 to 281. A wait that times out, a query that finds nothing
  and the click on a missing button throw.
\<close>

definition drive :: "element \<Rightarrow> flight \<Rightarrow> flight" where
  "drive el st =
     (let st1 = emit [HoverItem, WaitTooltip] st in
      if \<not> tooltip_on_page el then st1\<lparr>outcome := Unhandled TimeoutError\<rparr>
      else if \<not> tooltip_in_item el then st1\<lparr>outcome := Unhandled ExtractionError\<rparr>
      else
        (let st2 = emit [HoverTooltip, WaitMenu] st1 in
         if \<not> menu_appears el then st2\<lparr>outcome := Unhandled TimeoutError\<rparr>
         else if \<not> download_button el then st2\<lparr>outcome := Unhandled TypeError\<rparr>
         else emit [Click] st2))"

definition idle :: "fs \<Rightarrow> flight" where
  "idle d =
     \<lparr>downloadFilename = [], startListener = False, progressListener = False,
      disk = d, trace = [], outcome = Pending\<rparr>"

definition armed :: "fs \<Rightarrow> flight" where
  "armed d =
     (emit [RegisterStart, RegisterProgress] (idle d))
       \<lparr>startListener := True, progressListener := True\<rparr>"

text \<open>
  \<open>scrapeVideo\<close> on the directory \<open>d\<close> and the item \<open>el\<close>, with the notifications
  \<open>ns\<close> the browser sends, in their order, once the listeners are registered and the
  gestures are made. The session has no listener of an earlier item.
\<close>

definition scrapeVideo :: "env \<Rightarrow> fs \<Rightarrow> element \<Rightarrow> notification list \<Rightarrow> flight" where
  "scrapeVideo e d el ns =
     (case extractVideoDataFromElementHandle e el of
        Inl x \<Rightarrow> (idle d)\<lparr>outcome := Unhandled x\<rparr>
      | Inr v \<Rightarrow>
          if isVideoDataInCSV d (uuid v) then
            (emit [Resolve] (idle d))\<lparr>outcome := Resolved\<rparr>
          else if isPrivate v then
            (let entry = with_filename v PRIVATE_FILENAME
             in case addVideoDataToCSV d entry of
                  Inl x \<Rightarrow> (emit [Append entry False] (idle d))\<lparr>outcome := Unhandled x\<rparr>
                | Inr d' \<Rightarrow>
                    (emit [Append entry True, Resolve] (idle d))
                      \<lparr>disk := d', outcome := Resolved\<rparr>)
          else foldl (deliver e v) (drive el (armed d)) ns)"

text \<open>
  The loop over the grid items (lines 384 to 388): the next item starts when the promise
  of the one before is resolved. The result is the directory and the outcomes of the
  items that were started.
\<close>

fun scrape_all ::
  "env \<Rightarrow> fs \<Rightarrow> (element \<times> notification list) list \<Rightarrow> fs \<times> outcome list" where
  "scrape_all e d [] = (d, [])"
| "scrape_all e d ((el, ns) # rest) =
     (let st = scrapeVideo e d el ns in
      if outcome st = Resolved
      then (let (d', os) = scrape_all e (disk st) rest in (d', Resolved # os))
      else (disk st, [outcome st]))"

section \<open>Reading a trace\<close>

fun is_append :: "action \<Rightarrow> bool" where
  "is_append (Append _ _) = True"
| "is_append _ = False"

fun is_rename :: "action \<Rightarrow> bool" where
  "is_rename (Rename _ _ _) = True"
| "is_rename _ = False"

fun is_gesture :: "action \<Rightarrow> bool" where
  "is_gesture HoverItem = True"
| "is_gesture WaitTooltip = True"
| "is_gesture HoverTooltip = True"
| "is_gesture WaitMenu = True"
| "is_gesture Click = True"
| "is_gesture _ = False"

fun is_register :: "action \<Rightarrow> bool" where
  "is_register RegisterStart = True"
| "is_register RegisterProgress = True"
| "is_register _ = False"

text \<open>What the completion branch of the progress listener does.\<close>

definition completes :: "action \<Rightarrow> bool" where
  "completes a = (is_rename a \<or> is_append a \<or> a = Resolve \<or> a = RemoveProgress)"

text \<open>The identifier of the first \<open>download started\<close> notification of a sequence.\<close>

fun first_begin :: "notification list \<Rightarrow> string option" where
  "first_begin [] = None"
| "first_begin (DownloadWillBegin guid # ns) = Some guid"
| "first_begin (DownloadProgress guid state # ns) = first_begin ns"

definition captured :: "notification list \<Rightarrow> string" where
  "captured ns = (case first_begin ns of None \<Rightarrow> [] | Some guid \<Rightarrow> guid)"

fun guid_of :: "notification \<Rightarrow> string" where
  "guid_of (DownloadWillBegin guid) = guid"
| "guid_of (DownloadProgress guid state) = guid"

text \<open>
  An append is in its place in a trace when it writes the entry \<open>en\<close> and the action right
  before it is a rename to the name \<open>nm\<close> that succeeded; \<open>known\<close> says whether an append
  may stand at the very start.
\<close>

fun rename_to :: "string \<Rightarrow> action \<Rightarrow> bool" where
  "rename_to nm (Rename old new ok) = (new = nm \<and> ok)"
| "rename_to nm _ = False"

fun follows_outcome :: "string \<Rightarrow> ledgerEntry \<Rightarrow> bool \<Rightarrow> action list \<Rightarrow> bool" where
  "follows_outcome nm en known [] = True"
| "follows_outcome nm en known (a # tr) =
     ((if is_append a then known \<and> (a = Append en True \<or> a = Append en False) else True) \<and>
      follows_outcome nm en (rename_to nm a) tr)"

text \<open>The canonical name of the file of an item (line 253).\<close>

definition canonical :: "env \<Rightarrow> videoData \<Rightarrow> string" where
  "canonical e v = date v @ '' - '' @ sanitize e (title v) @ ''.mp4''"

text \<open>
  A trace in which the completion branch has not run; the identifier the start listener
  holds after the notifications \<open>ns\<close>, seen from the state \<open>st\<close>; the text of the ledger
  file (empty when there is none); and what holds of every state while notifications
  are delivered for the item \<open>v\<close> that started on the directory \<open>d\<close>.
\<close>

definition quiet :: "action list \<Rightarrow> bool" where
  "quiet tr = (filter completes tr = [])"

definition cap :: "flight \<Rightarrow> notification list \<Rightarrow> string" where
  "cap st ns =
     (if startListener st
      then (case first_begin ns of None \<Rightarrow> downloadFilename st | Some g \<Rightarrow> g)
      else downloadFilename st)"

definition ledger_text :: "fs \<Rightarrow> string" where
  "ledger_text d = (case files d CSV_FILENAME of None \<Rightarrow> [] | Some c \<Rightarrow> c)"



text \<open>How often the start listener has been removed.\<close>

definition removals :: "flight \<Rightarrow> nat" where
  "removals st = length (filter (\<lambda>a. a = RemoveStart) (trace st))"

section \<open>The grid loader\<close>

text \<open>
  The loop of \<open>loadAllVideos\<close>. \<open>scrollTop k\<close> is the position the page shows after the
  wait of round \<open>k\<close> (rounds counted from 0), \<open>atBottom\<close> and \<open>lastPosition\<close> are the
  variables of the source, and the result is the number of rounds made; \<open>None\<close> is a
  loop that does not end.
\<close>

partial_function (option) loadAllVideos_loop ::
  "(nat \<Rightarrow> int) \<Rightarrow> nat \<Rightarrow> bool \<Rightarrow> int \<Rightarrow> nat option" where
  "loadAllVideos_loop scrollTop k atBottom lastPosition =
     (if \<not> atBottom
      then loadAllVideos_loop scrollTop (Suc k)
             (if scrollTop k = lastPosition then True else atBottom) (scrollTop k)
      else Some k)"

declare loadAllVideos_loop.simps [code]

definition loadAllVideos :: "(nat \<Rightarrow> int) \<Rightarrow> nat option" where
  "loadAllVideos scrollTop = loadAllVideos_loop scrollTop 0 False (- 1)"

text \<open>Round \<open>k\<close> shows the position of the round before (\<open>-1\<close> before round 0).\<close>

definition no_advance :: "(nat \<Rightarrow> int) \<Rightarrow> nat \<Rightarrow> bool" where
  "no_advance scrollTop k = (scrollTop k = (if k = 0 then - 1 else scrollTop (k - 1)))"

text \<open>The same test from inside the loop, which is in round \<open>k\<close> and remembers \<open>lastPosition\<close>.\<close>

definition stops_at :: "(nat \<Rightarrow> int) \<Rightarrow> nat \<Rightarrow> int \<Rightarrow> nat \<Rightarrow> bool" where
  "stops_at scrollTop k lastPosition j =
     (scrollTop j = (if j = k then lastPosition else scrollTop (j - 1)))"

section \<open>Example inputs\<close>

text \<open>A ledger with the header and the row of one downloaded item.\<close>

definition one_row_text :: string where
  "one_row_text =
     headers @
     ''https://www.behance.net/videos/7f3a9/Stream-42,7f3a9,Stream 42,'' @
     ''2023-01-05,1:02:03,2023-01-05 - Stream 42.mp4'' @ [newline]"

definition ledger_one_row :: fs where
  "ledger_one_row =
     \<lparr>files = [CSV_FILENAME \<mapsto> one_row_text], readable = True, writable = True,
      renamable = True\<rparr>"

definition empty_dir :: fs where
  "empty_dir =
     \<lparr>files = Map.empty, readable = True, writable = True, renamable = True\<rparr>"

text \<open>
  A runtime in the time zone \<open>tz\<close>, and three grid items. The \<open>sanitize\<close> of the example
  removes the characters \<^verbatim>\<open>/ ? < > \ : * | "\<close> and the control characters, as the package
  does; the package's treatment of reserved names, of trailing dots and spaces and of
  names longer than 255 bytes is not part of it.
\<close>

definition illegal_char :: "char \<Rightarrow> bool" where
  "illegal_char c =
     (c \<in> set [CHR ''/'', CHR ''?'', CHR ''<'', CHR ''>'', CHR 0x5C, CHR '':'', CHR ''*'',
                CHR ''|'', CHR 0x22]
      \<or> (of_char c :: nat) < 32 \<or> (128 \<le> (of_char c :: nat) \<and> (of_char c :: nat) < 160))"

definition example_env :: "int \<Rightarrow> env" where
  "example_env tz =
     \<lparr>date_parse = v8_date_parse tz, sanitize = filter (\<lambda>c. \<not> illegal_char c)\<rparr>"

definition item_7f3a9 :: element where
  "item_7f3a9 =
     \<lparr>anchor = Some (''https://www.behance.net/videos/7f3a9/Stream-42'', ''Stream 42''),
      card_name_date = Some ''Jan 5, 2023'', duration_text = Some ''1:02:03'',
      privacy_lock = False, tooltip_on_page = True, tooltip_in_item = True,
      menu_appears = True, download_button = True\<rparr>"

definition item_b1e55 :: element where
  "item_b1e55 =
     \<lparr>anchor = Some (''https://www.behance.net/videos/b1e55/Sketching'', ''Sketching''),
      card_name_date = Some ''Feb 9, 2023'', duration_text = Some ''45:10'',
      privacy_lock = False, tooltip_on_page = True, tooltip_in_item = True,
      menu_appears = True, download_button = True\<rparr>"

definition item_private :: element where
  "item_private =
     \<lparr>anchor = Some (''https://www.behance.net/videos/c0ffee/Draft'', ''Draft''),
      card_name_date = Some ''Mar 1, 2023'', duration_text = Some ''10:00'',
      privacy_lock = True, tooltip_on_page = True, tooltip_in_item = True,
      menu_appears = True, download_button = True\<rparr>"

text \<open>The ledger of one row, with every change to the text of a file refused.\<close>

definition read_only_ledger :: fs where
  "read_only_ledger = ledger_one_row\<lparr>writable := False\<rparr>"

text \<open>
  The ledger of one row beside the file \<open>g-1\<close> that the browser has downloaded under its
  transfer identifier.
\<close>

definition ledger_with_download :: fs where
  "ledger_with_download =
     \<lparr>files = [CSV_FILENAME \<mapsto> one_row_text, ''g-1'' \<mapsto> ''video''],
      readable = True, writable = True, renamable = True\<rparr>"

text \<open>What the extractor reads from the three items, and two runs of notifications.\<close>

definition video_7f3a9 :: videoData where
  "video_7f3a9 =
     \<lparr>url = ''https://www.behance.net/videos/7f3a9/Stream-42'', uuid = ''7f3a9'',
      title = ''Stream 42'', date = ''2023-01-05'', duration = ''1:02:03'',
      isPrivate = False\<rparr>"

definition video_b1e55 :: videoData where
  "video_b1e55 =
     \<lparr>url = ''https://www.behance.net/videos/b1e55/Sketching'', uuid = ''b1e55'',
      title = ''Sketching'', date = ''2023-02-09'', duration = ''45:10'',
      isPrivate = False\<rparr>"

definition video_private :: videoData where
  "video_private =
     \<lparr>url = ''https://www.behance.net/videos/c0ffee/Draft'', uuid = ''c0ffee'',
      title = ''Draft'', date = ''2023-03-01'', duration = ''10:00'',
      isPrivate = True\<rparr>"

definition two_starts :: "notification list" where
  "two_starts =
     [DownloadWillBegin ''g-1'', DownloadWillBegin ''g-2'',
      DownloadProgress ''g-2'' Completed, DownloadProgress ''g-1'' InProgress,
      DownloadProgress ''g-1'' Completed, DownloadProgress ''g-1'' Completed]"


definition progress_only :: "notification list" where
  "progress_only = [DownloadProgress ''g-9'' InProgress, DownloadProgress ''g-9'' Completed]"

section \<open>Facts about the string functions\<close>

lemma str_includes_iff: "str_includes s u \<longleftrightarrow> (\<exists>p q. s = p @ u @ q)"
proof (induction s)
  case Nil
  then show ?case by auto
next
  case (Cons c cs)
  show ?case
  proof
    assume "str_includes (c # cs) u"
    then consider "prefix u (c # cs)" | "str_includes cs u" by auto
    then show "\<exists>p q. c # cs = p @ u @ q"
    proof cases
      case 1
      then obtain q where "c # cs = u @ q" by (auto simp: prefix_def)
      then have "c # cs = [] @ u @ q" by simp
      then show ?thesis by blast
    next
      case 2
      with Cons.IH obtain p q where "cs = p @ u @ q" by blast
      then have "c # cs = (c # p) @ u @ q" by simp
      then show ?thesis by blast
    qed
  next
    assume "\<exists>p q. c # cs = p @ u @ q"
    then obtain p q where pq: "c # cs = p @ u @ q" by blast
    show "str_includes (c # cs) u"
    proof (cases p)
      case Nil
      with pq have "prefix u (c # cs)" by (simp add: prefix_def)
      then show ?thesis by simp
    next
      case (Cons a p')
      with pq have "cs = p' @ u @ q" by simp
      with Cons.IH have "str_includes cs u" by blast
      then show ?thesis by simp
    qed
  qed
qed

lemma split_on_nonempty: "split_on sep s \<noteq> []"
  by (induction s) (auto split: list.splits)

lemma split_on_hd_prefix: "split_on sep s = v # vs \<Longrightarrow> prefix v s"
proof (induction s arbitrary: v vs)
  case Nil
  then show ?case by simp
next
  case (Cons c cs)
  show ?case
  proof (cases "c = sep")
    case True
    with Cons.prems show ?thesis by simp
  next
    case False
    obtain v' vs' where vs: "split_on sep cs = v' # vs'"
      using split_on_nonempty [of sep cs] by (cases "split_on sep cs") auto
    with False Cons.prems have "v = c # v'" by simp
    moreover from vs Cons.IH have "prefix v' cs" by blast
    ultimately show ?thesis by simp
  qed
qed

lemma split_on_part:
  "w \<in> set (split_on sep s) \<Longrightarrow> \<exists>p q. s = p @ w @ q"
proof (induction s arbitrary: w)
  case Nil
  then show ?case by simp
next
  case (Cons c cs)
  obtain v vs where vs: "split_on sep cs = v # vs"
    using split_on_nonempty [of sep cs] by (cases "split_on sep cs") auto
  have rest: "\<exists>p q. c # cs = p @ w @ q" if "w \<in> set (split_on sep cs)"
  proof -
    from that Cons.IH obtain p q where "cs = p @ w @ q" by blast
    then have "c # cs = (c # p) @ w @ q" by simp
    then show ?thesis by blast
  qed
  show ?case
  proof (cases "c = sep")
    case True
    with Cons.prems consider "w = []" | "w \<in> set (split_on sep cs)" by auto
    then show ?thesis
    proof cases
      case 1
      then have "c # cs = [] @ w @ (c # cs)" by simp
      then show ?thesis by blast
    next
      case 2
      then show ?thesis by (rule rest)
    qed
  next
    case False
    with vs Cons.prems consider "w = c # v" | "w \<in> set vs" by auto
    then show ?thesis
    proof cases
      case 1
      from vs have "prefix v cs" by (rule split_on_hd_prefix)
      then obtain q where "cs = v @ q" by (auto simp: prefix_def)
      with 1 have "c # cs = [] @ w @ q" by simp
      then show ?thesis by blast
    next
      case 2
      with vs have "w \<in> set (split_on sep cs)" by simp
      then show ?thesis by (rule rest)
    qed
  qed
qed

lemma spec_contains_includes:
  assumes "spec_contains csvData u"
  shows "str_includes csvData u"
proof -
  from assms obtain line where line: "line \<in> set (ledger_rows csvData)"
    and u: "row_uuid line = Some u"
    by (auto simp: spec_contains_def list_ex_iff)
  from line have "line \<in> set (split_on newline csvData)"
    unfolding ledger_rows_def by (rule list.set_sel(2) [rotated]) (simp add: split_on_nonempty)
  then obtain p q where pq: "csvData = p @ line @ q"
    using split_on_part by blast
  from u have "u \<in> set (split_on CHR '','' line)"
    by (auto simp: row_uuid_def split: list.splits)
  then obtain p' q' where "line = p' @ u @ q'"
    using split_on_part by blast
  with pq have "csvData = (p @ p') @ u @ (q' @ q)" by simp
  then show ?thesis unfolding str_includes_iff by blast
qed

section \<open>The ledger: initialisation and membership\<close>

text \<open>
  C8. \<open>initCSV\<close> never truncates and is idempotent: on a directory that has the ledger
  file, whatever its text, the directory is left as it is; on a directory without it
  (and a write that is not refused) the file is created holding exactly the header row;
  and running \<open>initCSV\<close> a second time on the result of the first run gives the result
  of the first run.
\<close>

theorem initCSV_idempotent_no_truncate:
  "(files d CSV_FILENAME = Some c \<longrightarrow> initCSV d = Inr d) \<and>
   (files d CSV_FILENAME = None \<and> writable d \<longrightarrow>
      initCSV d = Inr (d\<lparr>files := (files d)(CSV_FILENAME \<mapsto> headers)\<rparr>)) \<and>
   (case initCSV d of Inl x \<Rightarrow> Inl x | Inr d' \<Rightarrow> initCSV d') = initCSV d"
  by (auto simp: initCSV_def fs_access_def fs_writeFile_def split: option.splits sum.splits)

text \<open>The empty directory gets the header; a ledger with a row is left alone.\<close>

theorem initCSV_witness:
  "files empty_dir CSV_FILENAME = None \<and> writable empty_dir \<and>
   initCSV empty_dir =
     Inr (empty_dir\<lparr>files := (files empty_dir)(CSV_FILENAME \<mapsto> headers)\<rparr>) \<and>
   files ledger_one_row CSV_FILENAME = Some one_row_text \<and>
   initCSV ledger_one_row = Inr ledger_one_row"
proof -
  have a: "files empty_dir CSV_FILENAME = None \<and> writable empty_dir"
    by (simp add: empty_dir_def)
  have b: "files ledger_one_row CSV_FILENAME = Some one_row_text"
    by (simp add: ledger_one_row_def)
  show ?thesis
    using a b initCSV_idempotent_no_truncate [of empty_dir]
      initCSV_idempotent_no_truncate [of ledger_one_row one_row_text]
    by blast
qed

text \<open>
  C1, as stated, fails: the ledger holds the one row of the item \<open>7f3a9\<close>, whose title
  is \<open>Stream 42\<close>. No row has the identifier \<open>42\<close>, and \<open>isVideoDataInCSV\<close> answers
  true for it, because \<open>42\<close> occurs in the title (and in the URL and the file name).
\<close>

theorem isVideoDataInCSV_counterexample:
  "isVideoDataInCSV ledger_one_row ''42'' \<and>
   \<not> spec_contains (the (files ledger_one_row CSV_FILENAME)) ''42''"
  unfolding ledger_one_row_def by code_simp

text \<open>
  C1, amended. \<open>isVideoDataInCSV d u\<close> is true exactly when the ledger file can be read
  and \<open>u\<close> occurs somewhere in its text as a contiguous substring (in the header, in
  any field of any row, or across fields). So it is true whenever some row has the
  identifier \<open>u\<close>; the converse does not hold.
\<close>

theorem isVideoDataInCSV_substring:
  "(isVideoDataInCSV d u \<longleftrightarrow>
      readable d \<and>
      (\<exists>csvData p q. files d CSV_FILENAME = Some csvData \<and> csvData = p @ u @ q)) \<and>
   (readable d \<and> files d CSV_FILENAME = Some c \<and> spec_contains c u \<longrightarrow>
      isVideoDataInCSV d u)"
  using spec_contains_includes [of c u]
  by (auto simp: isVideoDataInCSV_def fs_readFile_def str_includes_iff split: option.splits)

text \<open>The row of the item \<open>7f3a9\<close> is found.\<close>

theorem isVideoDataInCSV_substring_witness:
  "readable ledger_one_row \<and> files ledger_one_row CSV_FILENAME = Some one_row_text \<and>
   spec_contains one_row_text ''7f3a9'' \<and> isVideoDataInCSV ledger_one_row ''7f3a9''"
proof -
  have a: "readable ledger_one_row \<and> files ledger_one_row CSV_FILENAME = Some one_row_text"
    by (simp add: ledger_one_row_def)
  have b: "spec_contains one_row_text ''7f3a9''"
    by code_simp
  show ?thesis
    using a b isVideoDataInCSV_substring [of ledger_one_row "''7f3a9''" one_row_text]
    by blast
qed

section \<open>The grid loader stops at the first round without advance\<close>

lemma loop_at_bottom: "loadAllVideos_loop scrollTop k True lastPosition = Some k"
  by (subst loadAllVideos_loop.simps) simp

lemma loop_round:
  "loadAllVideos_loop scrollTop k False lastPosition =
     loadAllVideos_loop scrollTop (Suc k) (scrollTop k = lastPosition) (scrollTop k)"
  by (subst loadAllVideos_loop.simps) simp

lemma loop_stops:
  assumes "k \<le> j" "stops_at scrollTop k lastPosition j"
    "\<forall>i. k \<le> i \<and> i < j \<longrightarrow> \<not> stops_at scrollTop k lastPosition i"
  shows "loadAllVideos_loop scrollTop k False lastPosition = Some (Suc j)"
  using assms
proof (induction "j - k" arbitrary: k lastPosition)
  case 0
  then have "j = k" by simp
  with 0 show ?case by (simp add: loop_round loop_at_bottom stops_at_def)
next
  case (Suc n)
  then have kj: "k < j" by simp
  with Suc.prems have ne: "scrollTop k \<noteq> lastPosition"
    by (auto simp: stops_at_def)
  have "loadAllVideos_loop scrollTop (Suc k) False (scrollTop k) = Some (Suc j)"
  proof (rule Suc.hyps(1))
    show "n = j - Suc k" using Suc.hyps(2) by simp
    show "Suc k \<le> j" using kj by simp
    show "stops_at scrollTop (Suc k) (scrollTop k) j"
      using Suc.prems(2) kj by (auto simp: stops_at_def)
    show "\<forall>i. Suc k \<le> i \<and> i < j \<longrightarrow> \<not> stops_at scrollTop (Suc k) (scrollTop k) i"
    proof (intro allI impI)
      fix i assume i: "Suc k \<le> i \<and> i < j"
      with Suc.prems(3) have "\<not> stops_at scrollTop k lastPosition i" by simp
      with i have "scrollTop i \<noteq> scrollTop (i - 1)" by (simp add: stops_at_def)
      then show "\<not> stops_at scrollTop (Suc k) (scrollTop k) i"
        by (auto simp: stops_at_def)
    qed
  qed
  with ne show ?case by (simp add: loop_round)
qed

lemma loop_returns:
  assumes "loadAllVideos_loop scrollTop k atBottom lastPosition = Some n"
  shows "(atBottom \<and> n = k) \<or>
   (\<not> atBottom \<and> (\<exists>j\<ge>k. n = Suc j \<and> stops_at scrollTop k lastPosition j \<and>
       (\<forall>i. k \<le> i \<and> i < j \<longrightarrow> \<not> stops_at scrollTop k lastPosition i)))"
proof (rule loadAllVideos_loop.raw_induct [OF _ assms], goal_cases)
  case (1 loop scrollTop k atBottom lastPosition n)
  show ?case
  proof (cases atBottom)
    case True
    with 1(2) show ?thesis by simp
  next
    case False
    with 1(2) have call:
      "loop scrollTop (Suc k) (scrollTop k = lastPosition) (scrollTop k) = Some n"
      by (cases "scrollTop k = lastPosition") simp_all
    show ?thesis
    proof (cases "scrollTop k = lastPosition")
      case True
      with call 1(1) [of scrollTop "Suc k" True "scrollTop k" n] have "n = Suc k" by simp
      with True False show ?thesis by (auto simp: stops_at_def)
    next
      case ne: False
      with call 1(1) [of scrollTop "Suc k" False "scrollTop k" n]
      obtain j where j: "Suc k \<le> j" "n = Suc j" "stops_at scrollTop (Suc k) (scrollTop k) j"
        "\<forall>i. Suc k \<le> i \<and> i < j \<longrightarrow> \<not> stops_at scrollTop (Suc k) (scrollTop k) i"
        by auto
      have "stops_at scrollTop k lastPosition j"
        using j(1,3) by (auto simp: stops_at_def split: if_splits)
      moreover have "\<forall>i. k \<le> i \<and> i < j \<longrightarrow> \<not> stops_at scrollTop k lastPosition i"
      proof (intro allI impI)
        fix i assume i: "k \<le> i \<and> i < j"
        show "\<not> stops_at scrollTop k lastPosition i"
        proof (cases "i = k")
          case True
          with ne show ?thesis by (simp add: stops_at_def)
        next
          case False
          with i j(4) have "\<not> stops_at scrollTop (Suc k) (scrollTop k) i" by simp
          with False i show ?thesis by (auto simp: stops_at_def split: if_splits)
        qed
      qed
      ultimately show ?thesis using False j(1,2) by auto
    qed
  qed
qed

lemma stops_at_0: "stops_at scrollTop 0 (- 1) j = no_advance scrollTop j"
  by (simp add: stops_at_def no_advance_def)

text \<open>
  C9. The loop of \<open>loadAllVideos\<close> ends exactly at the first round whose wait shows the
  position of the round before: it returns after \<open>j + 1\<close> rounds if and only if round
  \<open>j\<close> is the first without advance, and it never returns if and only if every round
  advances. There is no bound on the number of rounds.
\<close>

theorem loadAllVideos_stops_iff:
  "(loadAllVideos scrollTop = Some n \<longleftrightarrow>
      (\<exists>j. n = Suc j \<and> no_advance scrollTop j \<and> (\<forall>i<j. \<not> no_advance scrollTop i))) \<and>
   (loadAllVideos scrollTop = None \<longleftrightarrow> (\<forall>k. \<not> no_advance scrollTop k))"
proof -
  have some: "loadAllVideos scrollTop = Some n \<longleftrightarrow>
      (\<exists>j. n = Suc j \<and> no_advance scrollTop j \<and> (\<forall>i<j. \<not> no_advance scrollTop i))" for n
  proof
    assume "loadAllVideos scrollTop = Some n"
    then show "\<exists>j. n = Suc j \<and> no_advance scrollTop j \<and> (\<forall>i<j. \<not> no_advance scrollTop i)"
      unfolding loadAllVideos_def by (auto dest!: loop_returns simp: stops_at_0)
  next
    assume "\<exists>j. n = Suc j \<and> no_advance scrollTop j \<and> (\<forall>i<j. \<not> no_advance scrollTop i)"
    then obtain j where "n = Suc j" "no_advance scrollTop j" "\<forall>i<j. \<not> no_advance scrollTop i"
      by blast
    then show "loadAllVideos scrollTop = Some n"
      unfolding loadAllVideos_def
      using loop_stops [of 0 j scrollTop "- 1"] by (simp add: stops_at_0)
  qed
  have none: "loadAllVideos scrollTop = None \<longleftrightarrow> (\<forall>k. \<not> no_advance scrollTop k)"
  proof
    assume n: "loadAllVideos scrollTop = None"
    show "\<forall>k. \<not> no_advance scrollTop k"
    proof (rule ccontr)
      assume "\<not> (\<forall>k. \<not> no_advance scrollTop k)"
      then have ex: "\<exists>k. no_advance scrollTop k" by blast
      define j where "j = (LEAST k. no_advance scrollTop k)"
      have "no_advance scrollTop j" unfolding j_def using ex by (rule LeastI_ex)
      moreover have "\<forall>i<j. \<not> no_advance scrollTop i"
        unfolding j_def using not_less_Least by blast
      ultimately have "loadAllVideos scrollTop = Some (Suc j)"
        using some [of "Suc j"] by blast
      with n show False by simp
    qed
  next
    assume "\<forall>k. \<not> no_advance scrollTop k"
    with some show "loadAllVideos scrollTop = None"
      by (cases "loadAllVideos scrollTop") auto
  qed
  from some none show ?thesis by blast
qed

text \<open>
  A page that stops growing at position 3 ends the loop after five rounds; a page that
  advances in every round keeps it running.
\<close>

theorem loadAllVideos_witness:
  "loadAllVideos (\<lambda>k. int (min k 3)) = Some 5 \<and> loadAllVideos (\<lambda>k. int k) = None"
proof -
  have a: "no_advance (\<lambda>k. int (min k 3)) 4"
    by (simp add: no_advance_def)
  have b: "\<forall>i<4. \<not> no_advance (\<lambda>k. int (min k 3)) i"
    by (auto simp: no_advance_def)
  have c: "\<forall>k. \<not> no_advance (\<lambda>k. int k) k"
    by (auto simp: no_advance_def)
  have "\<exists>j. (5::nat) = Suc j \<and> no_advance (\<lambda>k. int (min k 3)) j \<and>
          (\<forall>i<j. \<not> no_advance (\<lambda>k. int (min k 3)) i)"
    using a b by (intro exI [of _ 4]) simp
  then show ?thesis
    using c loadAllVideos_stops_iff [of "\<lambda>k. int (min k 3)" 5]
      loadAllVideos_stops_iff [of "\<lambda>k. int k"]
    by blast
qed

section \<open>Delivering notifications\<close>



lemma follows_outcome_weaken:
  "follows_outcome nm en False tr \<Longrightarrow> follows_outcome nm en k tr"
  by (cases tr) auto

lemma deliver_unhandled: "is_unhandled (outcome st) \<Longrightarrow> deliver e v st n = st"
  by (simp add: deliver_def)

lemma foldl_deliver_unhandled:
  "is_unhandled (outcome st) \<Longrightarrow> foldl (deliver e v) st ns = st"
  by (induction ns) (simp_all add: deliver_unhandled)

text \<open>One step, case by case.\<close>

lemma deliver_begin:
  "deliver e v st (DownloadWillBegin g) =
     (if startListener st \<and> \<not> is_unhandled (outcome st)
      then st\<lparr>trace := trace st @ [RemoveStart], startListener := False, downloadFilename := g\<rparr>
      else st)"
  by (simp add: deliver_def onDownloadWillBegin_def emit_def)

lemma deliver_progress_other:
  "g \<noteq> downloadFilename st \<or> s \<noteq> Completed \<or> \<not> progressListener st \<Longrightarrow>
   deliver e v st (DownloadProgress g s) = st"
  by (auto simp: deliver_def onDownloadProgress_def)

lemma deliver_progress_match:
  assumes "progressListener st" "\<not> is_unhandled (outcome st)"
  shows "deliver e v st (DownloadProgress (downloadFilename st) Completed) =
     (case fs_rename (disk st) (downloadFilename st) (canonical e v) of
        Inl x \<Rightarrow> st\<lparr>trace := trace st @ [RemoveProgress, Rename (downloadFilename st) (canonical e v) False],
                  progressListener := False, outcome := Unhandled x\<rparr>
      | Inr d' \<Rightarrow>
         (case addVideoDataToCSV d' (with_filename v (canonical e v)) of
            Inl x \<Rightarrow> st\<lparr>trace := trace st @ [RemoveProgress, Rename (downloadFilename st) (canonical e v) True,
                         Append (with_filename v (canonical e v)) False],
                  progressListener := False, disk := d', outcome := Unhandled x\<rparr>
          | Inr d'' \<Rightarrow> st\<lparr>trace := trace st @ [RemoveProgress, Rename (downloadFilename st) (canonical e v) True,
                         Append (with_filename v (canonical e v)) True, Resolve],
                  progressListener := False, disk := d'', outcome := Resolved\<rparr>))"
  using assms
  by (simp add: deliver_def onDownloadProgress_def emit_def canonical_def Let_def
      split: sum.splits)


lemma deliver_match_or_not:
  obtains (matching) g where "n = DownloadProgress g Completed" "g = downloadFilename st"
      "progressListener st" "\<not> is_unhandled (outcome st)"
  | (starting) g where "n = DownloadWillBegin g" "startListener st" "\<not> is_unhandled (outcome st)"
  | (unchanged) "deliver e v st n = st"
proof (cases n)
  case (DownloadWillBegin g)
  then show ?thesis
    using starting unchanged by (cases "startListener st \<and> \<not> is_unhandled (outcome st)")
      (auto simp: deliver_begin)
next
  case (DownloadProgress g s)
  show ?thesis
  proof (cases "g = downloadFilename st \<and> s = Completed \<and> progressListener st
                 \<and> \<not> is_unhandled (outcome st)")
    case True
    with DownloadProgress show ?thesis using matching by blast
  next
    case False
    with DownloadProgress have "deliver e v st n = st"
      using deliver_progress_other [of g st s e v] deliver_unhandled [of st e v n] by blast
    then show ?thesis by (rule unchanged)
  qed
qed









lemma scrapeVideo_private_path:
  assumes "extractVideoDataFromElementHandle e el = Inr v" "\<not> isVideoDataInCSV d (uuid v)"
    "isPrivate v"
  shows "scrapeVideo e d el ns =
     (case addVideoDataToCSV d (with_filename v PRIVATE_FILENAME) of
        Inl x \<Rightarrow> (idle d)\<lparr>trace := [Append (with_filename v PRIVATE_FILENAME) False],
                          outcome := Unhandled x\<rparr>
      | Inr d' \<Rightarrow> (idle d)\<lparr>trace := [Append (with_filename v PRIVATE_FILENAME) True, Resolve],
                           disk := d', outcome := Resolved\<rparr>)"
  using assms by (simp add: scrapeVideo_def idle_def emit_def Let_def split: sum.splits)


lemma csvLine_with_filename:
  "csvLine (with_filename v f) =
     url v @ '','' @ uuid v @ '','' @ title v @ '','' @ date v @ '','' @ duration v @ '','' @
     f @ [CHR 0x0A]"
  by (simp add: csvLine_def with_filename_def newline_def)

lemma append_adds_line:
  "addVideoDataToCSV d en = Inr d' \<Longrightarrow>
   files d' CSV_FILENAME = Some (ledger_text d @ csvLine en)"
  by (auto simp: addVideoDataToCSV_def fs_appendFile_def ledger_text_def
      split: if_splits option.splits)

text \<open>
  What holds of the private item when the directory takes the write: the record with the
  sentinel is the last line of the ledger, the promise is resolved, and nothing else
  was done.
\<close>

lemma private_item_ledgered:
  assumes "extractVideoDataFromElementHandle e el = Inr v" "\<not> isVideoDataInCSV d (uuid v)"
    "isPrivate v" "writable d"
  shows "trace (scrapeVideo e d el ns) =
           [Append (with_filename v ''PRIVATE - video not downloadable'') True, Resolve] \<and>
         outcome (scrapeVideo e d el ns) = Resolved \<and>
         \<not> startListener (scrapeVideo e d el ns) \<and>
         \<not> progressListener (scrapeVideo e d el ns) \<and>
         files (disk (scrapeVideo e d el ns)) CSV_FILENAME =
           Some (ledger_text d @
                 url v @ '','' @ uuid v @ '','' @ title v @ '','' @ date v @ '','' @
                 duration v @ '','' @ ''PRIVATE - video not downloadable'' @ [CHR 0x0A])"
proof -
  from assms(4) obtain d' where
    d': "addVideoDataToCSV d (with_filename v PRIVATE_FILENAME) = Inr d'"
    by (simp add: addVideoDataToCSV_def fs_appendFile_def)
  then have "files d' CSV_FILENAME =
      Some (ledger_text d @ csvLine (with_filename v PRIVATE_FILENAME))"
    by (rule append_adds_line)
  with d' show ?thesis
    unfolding scrapeVideo_private_path [OF assms(1-3)]
    by (simp add: idle_def csvLine_with_filename PRIVATE_FILENAME_def)
qed


section \<open>Appends to the ledger\<close>




section \<open>The early exits\<close>

text \<open>
  C3. An item whose extracted identifier passes the membership test of the ledger is
  skipped: the promise resolves and nothing else happens. The trace holds the resolution
  alone (no gesture, no listener registered, no append), both listeners stay
  unregistered, and the directory is the one before, whatever the browser sends.
\<close>

theorem scrapeVideo_skips_ledgered:
  assumes "extractVideoDataFromElementHandle e el = Inr v"
    and "isVideoDataInCSV d (uuid v)"
  shows "scrapeVideo e d el ns =
           \<lparr>downloadFilename = [], startListener = False, progressListener = False,
            disk = d, trace = [Resolve], outcome = Resolved\<rparr> \<and>
         (\<forall>a \<in> set (trace (scrapeVideo e d el ns)).
            \<not> is_gesture a \<and> \<not> is_register a \<and> \<not> is_append a)"
  using assms by (simp add: scrapeVideo_def idle_def emit_def)

text \<open>The item \<open>7f3a9\<close> of the ledger of one row is skipped.\<close>

theorem scrapeVideo_skips_ledgered_witness:
  "extractVideoDataFromElementHandle (example_env 0) item_7f3a9 = Inr video_7f3a9 \<and>
   isVideoDataInCSV ledger_one_row (uuid video_7f3a9) \<and>
   scrapeVideo (example_env 0) ledger_one_row item_7f3a9 two_starts =
     \<lparr>downloadFilename = [], startListener = False, progressListener = False,
      disk = ledger_one_row, trace = [Resolve], outcome = Resolved\<rparr>"
proof -
  have a: "extractVideoDataFromElementHandle (example_env 0) item_7f3a9 = Inr video_7f3a9"
    by code_simp
  have b: "isVideoDataInCSV ledger_one_row (uuid video_7f3a9)"
    by code_simp
  show ?thesis
    using a b scrapeVideo_skips_ledgered [OF a b, of two_starts] by blast
qed



text \<open>
  C5 does not hold of the code when the directory refuses the write. The item \<open>c0ffee\<close>
  is flagged private and is not in the ledger. The append of its record with the
  sentinel is called before any gesture or listener, as it should be, but it rejects
  and nothing catches the rejection: no record reaches the ledger and the promise is
  never resolved. On the same ledger with the write accepted, the record with the
  sentinel becomes the last line and the promise resolves (\<open>private_item_ledgered\<close>
  shows this of every private item).
\<close>

theorem private_item_refused_write:
  "extractVideoDataFromElementHandle (example_env 0) item_private = Inr video_private \<and>
   isPrivate video_private \<and>
   \<not> isVideoDataInCSV read_only_ledger (uuid video_private) \<and>
   trace (scrapeVideo (example_env 0) read_only_ledger item_private []) =
     [Append (with_filename video_private ''PRIVATE - video not downloadable'') False] \<and>
   outcome (scrapeVideo (example_env 0) read_only_ledger item_private []) = Unhandled EACCES \<and>
   files (disk (scrapeVideo (example_env 0) read_only_ledger item_private [])) CSV_FILENAME
     = Some one_row_text \<and>
   trace (scrapeVideo (example_env 0) ledger_one_row item_private []) =
     [Append (with_filename video_private ''PRIVATE - video not downloadable'') True, Resolve] \<and>
   outcome (scrapeVideo (example_env 0) ledger_one_row item_private []) = Resolved \<and>
   files (disk (scrapeVideo (example_env 0) ledger_one_row item_private [])) CSV_FILENAME
     = Some (one_row_text @
         ''https://www.behance.net/videos/c0ffee/Draft,c0ffee,Draft,2023-03-01,10:00,'' @
         ''PRIVATE - video not downloadable'' @ [CHR 0x0A])"
  by code_simp

section \<open>Correlating the download\<close>

lemma quiet_simps:
  "quiet []" "quiet (tr @ tr') = (quiet tr \<and> quiet tr')"
  "quiet (a # tr) = (\<not> completes a \<and> quiet tr)"
  by (auto simp: quiet_def)

lemma quiet_mem: "quiet tr \<Longrightarrow> a \<in> set tr \<Longrightarrow> \<not> completes a"
  by (auto simp: quiet_def filter_empty_conv)

lemma completed_stays:
  "\<not> progressListener st \<Longrightarrow>
   filter completes (trace (foldl (deliver e v) st ns)) = filter completes (trace st)"
proof (induction ns arbitrary: st)
  case Nil
  then show ?case by simp
next
  case (Cons n ns)
  show ?case
  proof (cases rule: deliver_match_or_not [where n = n and st = st and e = e and v = v])
    case (matching g)
    with Cons.prems show ?thesis by simp
  next
    case (starting g)
    then have "deliver e v st n =
        st\<lparr>trace := trace st @ [RemoveStart], startListener := False, downloadFilename := g\<rparr>"
      by (simp add: deliver_begin)
    with Cons.prems Cons.IH [of "deliver e v st n"] show ?thesis
      by (simp add: completes_def)
  next
    case unchanged
    with Cons show ?thesis by simp
  qed
qed

lemma cap_Nil: "cap st [] = downloadFilename st"
  by (simp add: cap_def)

lemma acted_on_captured:
  assumes "a \<in> set (trace (foldl (deliver e v) st ns))" "completes a" "quiet (trace st)"
  shows "\<exists>pre post. ns = pre @ DownloadProgress (cap st pre) Completed # post \<and>
           (\<forall>old new ok. a = Rename old new ok \<longrightarrow> old = cap st pre)"
  using assms
proof (induction ns arbitrary: st)
  case Nil
  then show ?case by (auto dest: quiet_mem)
next
  case (Cons n ns)
  show ?case
  proof (cases rule: deliver_match_or_not [where n = n and st = st and e = e and v = v])
    case (matching g)
    let ?st' = "deliver e v st n"
    from matching have step: "?st' =
        (case fs_rename (disk st) (downloadFilename st) (canonical e v) of
           Inl x \<Rightarrow> st\<lparr>trace := trace st @ [RemoveProgress, Rename (downloadFilename st) (canonical e v) False],
                  progressListener := False, outcome := Unhandled x\<rparr>
         | Inr d' \<Rightarrow>
         (case addVideoDataToCSV d' (with_filename v (canonical e v)) of
            Inl x \<Rightarrow> st\<lparr>trace := trace st @ [RemoveProgress, Rename (downloadFilename st) (canonical e v) True,
                         Append (with_filename v (canonical e v)) False],
                  progressListener := False, disk := d', outcome := Unhandled x\<rparr>
          | Inr d'' \<Rightarrow> st\<lparr>trace := trace st @ [RemoveProgress, Rename (downloadFilename st) (canonical e v) True,
                         Append (with_filename v (canonical e v)) True, Resolve],
                  progressListener := False, disk := d'', outcome := Resolved\<rparr>))"
      by (simp add: deliver_progress_match)
    then have off: "\<not> progressListener ?st'"
      by (simp split: sum.splits)
    have "a \<in> set (filter completes (trace (foldl (deliver e v) ?st' ns)))"
      using Cons.prems(1,2) by simp
    then have "a \<in> set (filter completes (trace ?st'))"
      using completed_stays [OF off] by simp
    then have "\<forall>old new ok. a = Rename old new ok \<longrightarrow> old = downloadFilename st"
      using Cons.prems(3) by (subst (asm) step) (auto split: sum.splits dest: quiet_mem)
    moreover have "n # ns = [] @ DownloadProgress (cap st []) Completed # ns"
      using matching by (simp add: cap_Nil)
    ultimately show ?thesis unfolding cap_Nil [symmetric, of st] by blast
  next
    case (starting g)
    let ?st' = "deliver e v st n"
    from starting have step: "?st' =
        st\<lparr>trace := trace st @ [RemoveStart], startListener := False, downloadFilename := g\<rparr>"
      by (simp add: deliver_begin)
    then have "quiet (trace ?st')"
      using Cons.prems(3) by (simp add: quiet_simps completes_def)
    with Cons.IH [of ?st'] Cons.prems(1,2)
    obtain pre post where p: "ns = pre @ DownloadProgress (cap ?st' pre) Completed # post"
      "\<forall>old new ok. a = Rename old new ok \<longrightarrow> old = cap ?st' pre"
      by auto
    have "cap ?st' pre = cap st (n # pre)"
      using starting by (simp add: deliver_begin cap_def)
    with p have "n # ns = (n # pre) @ DownloadProgress (cap st (n # pre)) Completed # post \<and>
        (\<forall>old new ok. a = Rename old new ok \<longrightarrow> old = cap st (n # pre))"
      by simp
    then show ?thesis by blast
  next
    case unchanged
    show ?thesis
    proof (cases "is_unhandled (outcome st)")
      case True
      with Cons.prems show ?thesis
        by (auto simp: foldl_deliver_unhandled deliver_unhandled dest: quiet_mem)
    next
      case alive: False
      from unchanged Cons.IH [of st] Cons.prems
      obtain pre post where p: "ns = pre @ DownloadProgress (cap st pre) Completed # post"
        "\<forall>old new ok. a = Rename old new ok \<longrightarrow> old = cap st pre"
        by auto
      have "cap st (n # pre) = cap st pre"
      proof (cases n)
        case (DownloadWillBegin g)
        from unchanged have "startListener (deliver e v st n) = startListener st"
          by simp
        with DownloadWillBegin alive have "\<not> startListener st"
          by (auto simp: deliver_begin split: if_splits)
        then show ?thesis by (simp add: cap_def)
      next
        case (DownloadProgress g s)
        then show ?thesis by (simp add: cap_def)
      qed
      with p have "n # ns = (n # pre) @ DownloadProgress (cap st (n # pre)) Completed # post \<and>
          (\<forall>old new ok. a = Rename old new ok \<longrightarrow> old = cap st (n # pre))"
        by simp
      then show ?thesis by blast
    qed
  qed
qed


lemma first_capture:
  assumes "\<not> is_unhandled (outcome (foldl (deliver e v) st ns))"
  shows "downloadFilename (foldl (deliver e v) st ns) = cap st ns \<and>
         startListener (foldl (deliver e v) st ns) = (startListener st \<and> first_begin ns = None)"
  using assms
proof (induction ns arbitrary: st)
  case Nil
  then show ?case by (simp add: cap_def)
next
  case (Cons n ns)
  let ?st' = "deliver e v st n"
  from Cons.prems have alive': "\<not> is_unhandled (outcome (foldl (deliver e v) ?st' ns))"
    by simp
  then have alive: "\<not> is_unhandled (outcome st)"
    by (auto simp: foldl_deliver_unhandled deliver_unhandled)
  note IH = Cons.IH [OF alive']
  show ?case
  proof (cases n)
    case (DownloadWillBegin g)
    with alive IH show ?thesis
      by (auto simp: deliver_begin cap_def)
  next
    case (DownloadProgress g s)
    have same: "downloadFilename ?st' = downloadFilename st \<and> startListener ?st' = startListener st"
    proof (cases rule: deliver_match_or_not [where n = n and st = st and e = e and v = v])
      case (matching g')
      then show ?thesis
        by (simp add: deliver_progress_match split: sum.splits)
    next
      case (starting g')
      with DownloadProgress show ?thesis by simp
    next
      case unchanged
      then show ?thesis by simp
    qed
    with IH DownloadProgress show ?thesis
      by (auto simp: cap_def split: option.splits)
  qed
qed

lemma removals_foldl:
  "removals st \<le> (if startListener st then 0 else 1) \<Longrightarrow>
   removals (foldl (deliver e v) st ns) \<le> 1"
proof (induction ns arbitrary: st)
  case Nil
  then show ?case by (simp split: if_splits)
next
  case (Cons n ns)
  have "removals (deliver e v st n) \<le> (if startListener (deliver e v st n) then 0 else 1)"
  proof (cases rule: deliver_match_or_not [where n = n and st = st and e = e and v = v])
    case (matching g)
    with Cons.prems show ?thesis
      by (auto simp: deliver_progress_match removals_def split: sum.splits if_splits)
  next
    case (starting g)
    with Cons.prems show ?thesis
      by (auto simp: deliver_begin removals_def split: if_splits)
  next
    case unchanged
    with Cons.prems show ?thesis by simp
  qed
  then show ?case using Cons.IH by simp
qed

lemma drive_armed_facts:
  "quiet (trace (drive el (armed d)))" "startListener (drive el (armed d))"
  "downloadFilename (drive el (armed d)) = []" "removals (drive el (armed d)) = 0"
  "progressListener (drive el (armed d))" "disk (drive el (armed d)) = d"
  "outcome (drive el (armed d)) \<noteq> Resolved"
  by (simp_all add: drive_def armed_def idle_def emit_def Let_def quiet_def completes_def
      removals_def)

lemma cap_armed: "cap (drive el (armed d)) ns = captured ns"
  by (simp add: cap_def captured_def drive_armed_facts split: option.splits)

lemma scrapeVideo_downloading:
  "extractVideoDataFromElementHandle e el = Inr v \<Longrightarrow> \<not> isVideoDataInCSV d (uuid v) \<Longrightarrow>
   \<not> isPrivate v \<Longrightarrow> scrapeVideo e d el ns = foldl (deliver e v) (drive el (armed d)) ns"
  by (simp add: scrapeVideo_def)

text \<open>
  C6. For an item that is downloaded (not in the ledger, not private) and any sequence
  of notifications: while the process is alive the identifier held is that of the first
  \<open>download started\<close> notification (the empty string as long as there was none), and
  the start listener is registered exactly as long as there was none; it is removed at
  most once. Every action of the completion branch (removing the progress listener, the
  rename, the append, the resolution) goes back to a \<open>download progress\<close> notification
  that reports \<open>completed\<close> for the identifier held when it arrives, and the file
  renamed is the one of that identifier. A notification with another identifier
  triggers none of them.
\<close>

theorem scrapeVideo_correlates:
  assumes "extractVideoDataFromElementHandle e el = Inr v"
    and "\<not> isVideoDataInCSV d (uuid v)" and "\<not> isPrivate v"
  shows "(\<not> is_unhandled (outcome (scrapeVideo e d el ns)) \<longrightarrow>
            downloadFilename (scrapeVideo e d el ns) = captured ns \<and>
            startListener (scrapeVideo e d el ns) = (first_begin ns = None)) \<and>
         length (filter (\<lambda>a. a = RemoveStart) (trace (scrapeVideo e d el ns))) \<le> 1 \<and>
         (\<forall>a \<in> set (trace (scrapeVideo e d el ns)). completes a \<longrightarrow>
            (\<exists>pre post. ns = pre @ DownloadProgress (captured pre) Completed # post \<and>
               (\<forall>old new ok. a = Rename old new ok \<longrightarrow> old = captured pre)))"
proof -
  note st = scrapeVideo_downloading [OF assms, of ns]
  have 1: "\<not> is_unhandled (outcome (scrapeVideo e d el ns)) \<longrightarrow>
            downloadFilename (scrapeVideo e d el ns) = captured ns \<and>
            startListener (scrapeVideo e d el ns) = (first_begin ns = None)"
    unfolding st using first_capture [of e v "drive el (armed d)" ns]
    by (simp add: cap_armed drive_armed_facts)
  have 2: "length (filter (\<lambda>a. a = RemoveStart) (trace (scrapeVideo e d el ns))) \<le> 1"
    unfolding st using removals_foldl [of "drive el (armed d)" e v ns]
    by (simp add: drive_armed_facts) (simp add: removals_def)
  have 3: "\<exists>pre post. ns = pre @ DownloadProgress (captured pre) Completed # post \<and>
               (\<forall>old new ok. a = Rename old new ok \<longrightarrow> old = captured pre)"
    if "a \<in> set (trace (scrapeVideo e d el ns))" "completes a" for a
    using acted_on_captured [of a e v "drive el (armed d)" ns] that
    unfolding st by (simp add: cap_armed drive_armed_facts)
  have 4: "\<forall>a \<in> set (trace (scrapeVideo e d el ns)). completes a \<longrightarrow>
            (\<exists>pre post. ns = pre @ DownloadProgress (captured pre) Completed # post \<and>
               (\<forall>old new ok. a = Rename old new ok \<longrightarrow> old = captured pre))"
    by (intro ballI impI) (rule 3)
  show ?thesis by (rule conjI [OF 1 conjI [OF 2 4]])
qed

text \<open>
  Two downloads start while the item \<open>b1e55\<close> is in flight: the identifier \<open>g-1\<close> of the
  first is held, the completion of \<open>g-2\<close> is ignored, and the file \<open>g-1\<close> is renamed.
\<close>

theorem scrapeVideo_correlates_witness:
  "extractVideoDataFromElementHandle (example_env 0) item_b1e55 = Inr video_b1e55 \<and>
   \<not> isVideoDataInCSV ledger_with_download (uuid video_b1e55) \<and> \<not> isPrivate video_b1e55 \<and>
   \<not> is_unhandled
       (outcome (scrapeVideo (example_env 0) ledger_with_download item_b1e55 two_starts)) \<and>
   downloadFilename (scrapeVideo (example_env 0) ledger_with_download item_b1e55 two_starts)
     = ''g-1'' \<and>
   \<not> startListener (scrapeVideo (example_env 0) ledger_with_download item_b1e55 two_starts) \<and>
   Rename ''g-1'' ''2023-02-09 - Sketching.mp4'' True
     \<in> set (trace (scrapeVideo (example_env 0) ledger_with_download item_b1e55 two_starts)) \<and>
   (\<exists>pre post. two_starts = pre @ DownloadProgress (captured pre) Completed # post \<and>
      ''g-1'' = captured pre)"
proof -
  have a: "extractVideoDataFromElementHandle (example_env 0) item_b1e55 = Inr video_b1e55"
    by code_simp
  have b: "\<not> isVideoDataInCSV ledger_with_download (uuid video_b1e55)"
    by code_simp
  have c: "\<not> isPrivate video_b1e55"
    by code_simp
  have d: "\<not> is_unhandled
       (outcome (scrapeVideo (example_env 0) ledger_with_download item_b1e55 two_starts))"
    by code_simp
  have e: "Rename ''g-1'' ''2023-02-09 - Sketching.mp4'' True
     \<in> set (trace (scrapeVideo (example_env 0) ledger_with_download item_b1e55 two_starts))"
    by code_simp
  have f: "completes (Rename ''g-1'' ''2023-02-09 - Sketching.mp4'' True)"
    by (simp add: completes_def)
  have g: "captured two_starts = ''g-1''" "first_begin two_starts \<noteq> None"
    by (simp_all add: captured_def two_starts_def)
  note t = scrapeVideo_correlates [OF a b c, of two_starts]
  from t d g have 1: "downloadFilename
      (scrapeVideo (example_env 0) ledger_with_download item_b1e55 two_starts) = ''g-1'' \<and>
    \<not> startListener (scrapeVideo (example_env 0) ledger_with_download item_b1e55 two_starts)"
    by simp
  from t e f have 2: "\<exists>pre post. two_starts = pre @ DownloadProgress (captured pre) Completed # post \<and>
      ''g-1'' = captured pre"
    by blast
  from a b c d e 1 2 show ?thesis by blast
qed

lemma no_begin_no_action:
  assumes "first_begin ns = None" "\<forall>n \<in> set ns. guid_of n \<noteq> []" "downloadFilename st = []"
  shows "foldl (deliver e v) st ns = st"
  using assms
proof (induction ns)
  case Nil
  then show ?case by simp
next
  case (Cons n ns)
  then show ?case
    by (cases n) (simp_all add: deliver_progress_other)
qed

text \<open>
  C10. For an item that is downloaded, as long as no \<open>download started\<close> notification
  has arrived and the identifiers of the notifications are not empty, progress
  notifications change nothing: the state is the one right after the gestures, the trace
  has no action of the completion branch, the promise is not resolved, the directory is
  untouched and the identifier held is still the empty string.
\<close>

theorem scrapeVideo_waits_for_start:
  assumes "extractVideoDataFromElementHandle e el = Inr v"
    and "\<not> isVideoDataInCSV d (uuid v)" and "\<not> isPrivate v"
    and "first_begin ns = None" and "\<forall>n \<in> set ns. guid_of n \<noteq> []"
  shows "scrapeVideo e d el ns = scrapeVideo e d el [] \<and>
         (\<forall>a \<in> set (trace (scrapeVideo e d el ns)). \<not> completes a) \<and>
         outcome (scrapeVideo e d el ns) \<noteq> Resolved \<and>
         disk (scrapeVideo e d el ns) = d \<and>
         downloadFilename (scrapeVideo e d el ns) = []"
proof -
  have "scrapeVideo e d el ns = drive el (armed d)"
    unfolding scrapeVideo_downloading [OF assms(1-3)]
    using assms(4,5) by (rule no_begin_no_action) (simp add: drive_armed_facts)
  moreover have "scrapeVideo e d el [] = drive el (armed d)"
    unfolding scrapeVideo_downloading [OF assms(1-3)] by simp
  ultimately show ?thesis
    using drive_armed_facts [of el d] by (auto dest: quiet_mem)
qed

text \<open>A completion reported for \<open>g-9\<close> before any start is ignored.\<close>

theorem scrapeVideo_waits_for_start_witness:
  "extractVideoDataFromElementHandle (example_env 0) item_b1e55 = Inr video_b1e55 \<and>
   \<not> isVideoDataInCSV ledger_with_download (uuid video_b1e55) \<and> \<not> isPrivate video_b1e55 \<and>
   first_begin progress_only = None \<and> list_all (\<lambda>n. guid_of n \<noteq> []) progress_only \<and>
   scrapeVideo (example_env 0) ledger_with_download item_b1e55 progress_only =
     scrapeVideo (example_env 0) ledger_with_download item_b1e55 [] \<and>
   outcome (scrapeVideo (example_env 0) ledger_with_download item_b1e55 progress_only)
     \<noteq> Resolved"
proof -
  have a: "extractVideoDataFromElementHandle (example_env 0) item_b1e55 = Inr video_b1e55"
    by code_simp
  have b: "\<not> isVideoDataInCSV ledger_with_download (uuid video_b1e55)"
    by code_simp
  have c: "\<not> isPrivate video_b1e55"
    by code_simp
  have d: "first_begin progress_only = None"
    by (simp add: progress_only_def)
  have e: "\<forall>n \<in> set progress_only. guid_of n \<noteq> []"
    by (simp add: progress_only_def)
  have f: "list_all (\<lambda>n. guid_of n \<noteq> []) progress_only"
    by (simp add: progress_only_def)
  show ?thesis
    using a b c d f scrapeVideo_waits_for_start [OF a b c d e] by blast
qed

section \<open>A refused append\<close>

text \<open>
  C7 does not hold of the code. The directory refuses the write; the private item
  \<open>c0ffee\<close> is not in the ledger, so \<open>addVideoDataToCSV\<close> is called and rejects. Nothing
  catches the rejection: the promise of the item is never resolved, and the loop over
  the items does not reach the second item. With a directory that takes the write both
  items are resolved.
\<close>

theorem append_failure_aborts:
  "outcome (scrapeVideo (example_env 0) read_only_ledger item_private []) = Unhandled EACCES \<and>
   snd (scrape_all (example_env 0) read_only_ledger
          [(item_private, []), (item_7f3a9, [])]) = [Unhandled EACCES] \<and>
   snd (scrape_all (example_env 0) ledger_one_row
          [(item_private, []), (item_7f3a9, [])]) = [Resolved, Resolved]"
  by code_simp

section \<open>The date of an item\<close>

text \<open>
  C4 does not hold of the code. On a machine in the time zone UTC+01:00 the text
  \<open>Jan 5, 2023\<close> is read as local midnight, which is 23:00 of 4 January in UTC, and
  \<open>toISOString\<close> prints the UTC date: the result is \<open>2023-01-04\<close>. On a machine in UTC
  the result is \<open>2023-01-05\<close>.
\<close>

theorem normalize_date_timezone:
  "normalize_date (example_env 60) ''Jan 5, 2023'' = Inr ''2023-01-04'' \<and>
   normalize_date (example_env 0) ''Jan 5, 2023'' = Inr ''2023-01-05''"
  by code_simp

end
